theory Spec2Isabelle
  imports Complex_Main "HOL-Library.AList"
begin

section \<open>TextTiling: the tokenizer and the block scorer of texttiling.py\<close>

text \<open>
  The development embeds the two functions of \<^verbatim>\<open>readless/Segmentation/texttiling.py\<close>:
  \<^verbatim>\<open>tokenize_string(input_string, w)\<close> and \<^verbatim>\<open>block_score(k, token_sequence, unique_tokens)\<close>.

  Conventions of the embedding.
  \<^item> The module is Python 2 (\<^verbatim>\<open>xrange\<close>); \<open>input_string\<close> is a byte string, a \<open>string\<close> here.
  \<^item> Python integers are \<open>int\<close>. Python's \<^verbatim>\<open>%\<close> and HOL's \<open>mod\<close> on \<open>int\<close> both take the
    sign of the divisor; \<^verbatim>\<open>x % 0\<close> raises \<^verbatim>\<open>ZeroDivisionError\<close>, which is a branch of the model.
  \<^item> The module-level \<^verbatim>\<open>stop_words\<close> (a list of words from NLTK) and
    \<^verbatim>\<open>lemmatizer.lemmatize\<close> (NLTK's WordNet lemmatizer) are not part of the repository;
    they are parameters \<open>stop_words\<close> and \<open>lemmatize\<close> of the model, the latter a total
    function on words.
  \<^item> A \<^verbatim>\<open>collections.Counter\<close> is an association list from keys to counts with distinct keys;
    a missing key reads as 0. Python 2 iterates over the keys of a dictionary and over the
    members of a \<^verbatim>\<open>set\<close> in an order that depends on hashing; the model lists them in the order
    of first insertion. No theorem below depends on that order except where a concrete list
    is displayed.
  \<^item> The scores are Python floats; the model computes them in \<open>real\<close>, that is, without
    rounding. \<^verbatim>\<open>math.sqrt\<close> is \<open>sqrt\<close>.
\<close>

datatype error = ZeroDivisionError | IndexError

subsection \<open>Python primitives used by the module\<close>

text \<open>\<^verbatim>\<open>collections.Counter\<close>\<close>

type_synonym 'a counter = "('a \<times> int) list"

definition Counter_empty :: "'a counter" where
  "Counter_empty = []"

text \<open>\<^verbatim>\<open>c[key]\<close>: the stored count, 0 for a missing key.\<close>

definition counter_get :: "'a counter \<Rightarrow> 'a \<Rightarrow> int" where
  "counter_get c key = (case map_of c key of None \<Rightarrow> 0 | Some n \<Rightarrow> n)"

text \<open>\<^verbatim>\<open>c[key] += 1\<close>\<close>

definition counter_incr :: "'a counter \<Rightarrow> 'a \<Rightarrow> 'a counter" where
  "counter_incr c key = AList.update key (counter_get c key + 1) c"

text \<open>\<^verbatim>\<open>Counter(iterable)\<close>: count the elements of a list.\<close>

definition Counter :: "'a list \<Rightarrow> 'a counter" where
  "Counter xs = fold (\<lambda>x c. counter_incr c x) xs Counter_empty"

text \<open>Iterating over a counter yields its keys.\<close>

definition counter_keys :: "'a counter \<Rightarrow> 'a list" where
  "counter_keys c = map fst c"

text \<open>
  \<^verbatim>\<open>a + b\<close> on counters: counts are added, and only positive results are kept
  (\<^verbatim>\<open>Counter.__add__\<close>).
\<close>

definition counter_add :: "'a counter \<Rightarrow> 'a counter \<Rightarrow> 'a counter" where
  "counter_add a b =
     [(elem, n + counter_get b elem). (elem, n) \<leftarrow> a, n + counter_get b elem > 0] @
     [(elem, n). (elem, n) \<leftarrow> b, elem \<notin> set (counter_keys a), n > 0]"

text \<open>\<^verbatim>\<open>xs[i]\<close> on a list of length \<open>n\<close>: an index in \<open>[0, n)\<close> reads from the front, an index
  in \<open>[-n, 0)\<close> reads from the end, any other index raises \<^verbatim>\<open>IndexError\<close>.\<close>

definition py_index :: "'a list \<Rightarrow> int \<Rightarrow> error + 'a" where
  "py_index xs i =
     (if 0 \<le> i \<and> i < int (length xs) then Inr (xs ! nat i)
      else if - int (length xs) \<le> i \<and> i < 0 then Inr (xs ! nat (int (length xs) + i))
      else Inl IndexError)"

text \<open>\<^verbatim>\<open>set(xs)\<close>, listed without repetition in the order of first occurrence.\<close>

definition py_set :: "'a list \<Rightarrow> 'a list" where
  "py_set xs = rev (remdups (rev xs))"

text \<open>\<^verbatim>\<open>str.splitlines()\<close> of a byte string: lines end at \<^verbatim>\<open>\n\<close>, \<^verbatim>\<open>\r\<close> or \<^verbatim>\<open>\r\n\<close>;
  the terminators are not kept, and a final line without terminator is a line only when
  it is not empty. The first argument collects the current line in reverse.\<close>

fun splitlines_from :: "string \<Rightarrow> string \<Rightarrow> string list" where
  "splitlines_from cur [] = (if cur = [] then [] else [rev cur])"
| "splitlines_from cur (c # cs) =
     (if c = CHR 0x0D then
        (case cs of
           d # ds \<Rightarrow> if d = CHR 0x0A then rev cur # splitlines_from [] ds
                     else rev cur # splitlines_from [] cs
         | [] \<Rightarrow> rev cur # splitlines_from [] cs)
      else if c = CHR 0x0A then rev cur # splitlines_from [] cs
      else splitlines_from (c # cur) cs)"

definition splitlines :: "string \<Rightarrow> string list" where
  "splitlines s = splitlines_from [] s"

text \<open>\<^verbatim>\<open>str.strip()\<close>: remove leading and trailing whitespace
  (space, \<^verbatim>\<open>\t\<close>, \<^verbatim>\<open>\n\<close>, \<^verbatim>\<open>\r\<close>, \<^verbatim>\<open>\x0b\<close>, \<^verbatim>\<open>\x0c\<close>).\<close>

definition is_space :: "char \<Rightarrow> bool" where
  "is_space c = (c \<in> set [CHR 0x20, CHR 0x09, CHR 0x0A, CHR 0x0D, CHR 0x0B, CHR 0x0C])"

definition strip :: "string \<Rightarrow> string" where
  "strip s = rev (dropWhile is_space (rev (dropWhile is_space s)))"

subsection \<open>The token pattern\<close>

text \<open>
  \<^verbatim>\<open>pattern = r"((?:[a-z]+(?:[-'][a-z]+)*))"\<close> and \<^verbatim>\<open>re.findall(pattern, paragraph)\<close>.
  The character class \<^verbatim>\<open>[a-z]\<close> is \<open>is_az\<close>, the class \<^verbatim>\<open>[-']\<close> is \<open>is_joiner\<close>.
  \<open>match_joined s\<close> is the greedy match of \<^verbatim>\<open>(?:[-'][a-z]+)*\<close> at the start of \<open>s\<close>,
  with the rest of the string. \<open>findall\<close> scans from left to right: where a match of the
  pattern starts, it is taken (greedily) and the scan goes on behind it; elsewhere the
  scan moves one character on.
\<close>

definition is_az :: "char \<Rightarrow> bool" where
  "is_az c = (c \<in> set ''abcdefghijklmnopqrstuvwxyz'')"

definition is_joiner :: "char \<Rightarrow> bool" where
  "is_joiner c = (c = CHR ''-'' \<or> c = CHR 0x27)"

function match_joined :: "string \<Rightarrow> string \<times> string" where
  "match_joined [] = ([], [])"
| "match_joined (c # cs) =
     (if is_joiner c \<and> takeWhile is_az cs \<noteq> []
      then (c # takeWhile is_az cs @ fst (match_joined (dropWhile is_az cs)),
            snd (match_joined (dropWhile is_az cs)))
      else ([], c # cs))"
  by pat_completeness auto
termination
  by (relation "measure length") (auto simp: length_dropWhile_le less_Suc_eq_le)

function findall :: "string \<Rightarrow> string list" where
  "findall [] = []"
| "findall (c # cs) =
     (if is_az c
      then (c # takeWhile is_az cs @ fst (match_joined (dropWhile is_az cs)))
           # findall (snd (match_joined (dropWhile is_az cs)))
      else findall cs)"
  by pat_completeness auto
termination
proof (relation "measure length")
  show "wf (measure length)" by simp
next
  fix c :: char and cs :: string
  have rest_le: "length (snd (match_joined s)) \<le> length s" for s
  proof (induction s rule: match_joined.induct)
    case 1
    show ?case by simp
  next
    case (2 c cs)
    have "length (dropWhile is_az cs) \<le> length cs"
      by (rule length_dropWhile_le)
    with 2 show ?case by auto
  qed
  have "length (snd (match_joined (dropWhile is_az cs))) \<le> length (dropWhile is_az cs)"
    by (rule rest_le)
  also have "\<dots> \<le> length cs" by (rule length_dropWhile_le)
  finally show "(snd (match_joined (dropWhile is_az cs)), c # cs) \<in> measure length"
    by simp
next
  fix c :: char and cs :: string
  show "(cs, c # cs) \<in> measure length" by simp
qed

subsection \<open>tokenize_string\<close>

text \<open>Lines 66-67: the paragraphs are the stripped lines that are not empty.\<close>

definition paragraphs_of :: "string \<Rightarrow> string list" where
  "paragraphs_of input_string = filter (\<lambda>s. s \<noteq> []) (map strip (splitlines input_string))"

text \<open>Lines 72-76: the loop over the paragraphs, on the state
  \<open>(tokens, token_count, paragraph_breaks)\<close>.\<close>

fun paragraph_loop ::
  "string list \<Rightarrow> string list \<times> int \<times> int list \<Rightarrow> string list \<times> int \<times> int list" where
  "paragraph_loop [] st = st"
| "paragraph_loop (paragraph # rest) (tokens, token_count, paragraph_breaks) =
     (let paragraph_tokens = findall paragraph
      in paragraph_loop rest
           (tokens @ paragraph_tokens,
            token_count + int (length paragraph_tokens),
            paragraph_breaks @ [token_count + int (length paragraph_tokens)]))"

text \<open>Lines 81-87: the loop over the tokens, on the state \<open>(count, index, token_sequences)\<close>.
  \<^verbatim>\<open>index % w\<close> raises when \<open>w = 0\<close>.\<close>

fun group_loop ::
  "int \<Rightarrow> string list \<Rightarrow> string counter \<times> int \<times> string counter list
     \<Rightarrow> error + (string counter \<times> int \<times> string counter list)" where
  "group_loop w [] st = Inr st"
| "group_loop w (tok # rest) (count, index, token_sequences) =
     (let count' = counter_incr count tok;
          index' = index + 1
      in if w = 0 then Inl ZeroDivisionError
         else if index' mod w = 0
         then group_loop w rest (Counter_empty, 0, token_sequences @ [count'])
         else group_loop w rest (count', index', token_sequences))"

text \<open>The raw token stream of a text: the \<open>tokens\<close> after the paragraph loop.\<close>

definition raw_tokens :: "string \<Rightarrow> string list" where
  "raw_tokens input_string = fst (paragraph_loop (paragraphs_of input_string) ([], 0, []))"

definition tokenize_string ::
  "string list \<Rightarrow> (string \<Rightarrow> string) \<Rightarrow> string \<Rightarrow> int
     \<Rightarrow> error + (string list list \<times> string list \<times> int list)" where
  "tokenize_string stop_words lemmatize input_string w =
     (let paragraphs = paragraphs_of input_string;
          (tokens, token_count, paragraph_breaks) = paragraph_loop paragraphs ([], 0, []);
          paragraph_breaks = butlast paragraph_breaks
      in case group_loop w tokens (Counter_empty, 0, []) of
           Inl e \<Rightarrow> Inl e
         | Inr (count, index, token_sequences) \<Rightarrow>
             (let token_sequences =
                    map (\<lambda>s. [lemmatize word. word \<leftarrow> counter_keys s, word \<notin> set stop_words])
                      token_sequences;
                  token_sequences = map (\<lambda>s. [lemmatize word. word \<leftarrow> s]) token_sequences;
                  unique_tokens = [word. word \<leftarrow> py_set tokens, word \<notin> set stop_words]
              in Inr (token_sequences, unique_tokens, paragraph_breaks)))"

subsection \<open>block_score\<close>

text \<open>Lines 124-126: the loop over \<open>j\<close>, on the state \<open>(before_count, after_count)\<close>.\<close>

fun window_loop ::
  "'a list list \<Rightarrow> int \<Rightarrow> int \<Rightarrow> int list \<Rightarrow> 'a counter \<times> 'a counter
     \<Rightarrow> error + ('a counter \<times> 'a counter)" where
  "window_loop token_sequence gap_index current_k [] st = Inr st"
| "window_loop token_sequence gap_index current_k (j # js) (before_count, after_count) =
     (case py_index token_sequence (gap_index + j - current_k) of
        Inl e \<Rightarrow> Inl e
      | Inr b \<Rightarrow>
          (case py_index token_sequence (gap_index + j) of
             Inl e \<Rightarrow> Inl e
           | Inr a \<Rightarrow>
               window_loop token_sequence gap_index current_k js
                 (counter_add before_count (Counter b), counter_add after_count (Counter a))))"

text \<open>Lines 133-136: the loop over the vocabulary, on the state
  \<open>(numerator, before_sum, after_sum)\<close>.\<close>

fun token_loop ::
  "'a counter \<Rightarrow> 'a counter \<Rightarrow> 'a list \<Rightarrow> real \<times> real \<times> real \<Rightarrow> real \<times> real \<times> real" where
  "token_loop before_count after_count [] st = st"
| "token_loop before_count after_count (token # rest) (numerator, before_sum, after_sum) =
     token_loop before_count after_count rest
       (numerator + real_of_int (counter_get before_count token * counter_get after_count token),
        before_sum + real_of_int ((counter_get before_count token)\<^sup>2),
        after_sum + real_of_int ((counter_get after_count token)\<^sup>2))"

text \<open>Line 120: the half-width \<open>current_k\<close> of the windows at a gap. Lines 120-143: the
  body of the loop over the gaps, on the state
  \<open>(before_count, after_count, score_block)\<close>, with \<open>c\<close> for the local \<open>current_k\<close>. The two slices \<open>before_block\<close> and
  \<open>after_block\<close> of lines 121-122 are never read, and slicing does not raise.\<close>

definition current_k :: "int \<Rightarrow> 'a list list \<Rightarrow> int \<Rightarrow> int" where
  "current_k k token_sequence gap_index =
     min gap_index (min k (int (length token_sequence) - gap_index))"

definition gap_body ::
  "int \<Rightarrow> 'a list list \<Rightarrow> 'a list \<Rightarrow> int \<Rightarrow> 'a counter \<times> 'a counter \<times> real list
     \<Rightarrow> error + ('a counter \<times> 'a counter \<times> real list)" where
  "gap_body k token_sequence unique_tokens gap_index st =
     (case st of (before_count, after_count, score_block) \<Rightarrow>
        (let c = current_k k token_sequence gap_index
         in case window_loop token_sequence gap_index c [0..c - 1]
                   (before_count, after_count) of
              Inl e \<Rightarrow> Inl e
            | Inr (before_count, after_count) \<Rightarrow>
                (case token_loop before_count after_count unique_tokens (0, 0, 0) of
                   (numerator, before_sum, after_sum) \<Rightarrow>
                     (let denominator = sqrt (before_sum * after_sum);
                          denominator = (if denominator = 0 then 1 else denominator)
                      in Inr (before_count, after_count,
                              score_block @ [numerator / denominator])))))"

fun gap_loop ::
  "int \<Rightarrow> 'a list list \<Rightarrow> 'a list \<Rightarrow> int list \<Rightarrow> 'a counter \<times> 'a counter \<times> real list
     \<Rightarrow> error + ('a counter \<times> 'a counter \<times> real list)" where
  "gap_loop k token_sequence unique_tokens [] st = Inr st"
| "gap_loop k token_sequence unique_tokens (gap_index # rest) st =
     (case gap_body k token_sequence unique_tokens gap_index st of
        Inl e \<Rightarrow> Inl e
      | Inr st' \<Rightarrow> gap_loop k token_sequence unique_tokens rest st')"

text \<open>Lines 114-145. \<^verbatim>\<open>range(1, len(token_sequence))\<close> is \<open>[1..len - 1]\<close>.\<close>

definition block_score :: "int \<Rightarrow> 'a list list \<Rightarrow> 'a list \<Rightarrow> error + real list" where
  "block_score k token_sequence unique_tokens =
     (case gap_loop k token_sequence unique_tokens [1..int (length token_sequence) - 1]
             (Counter_empty, Counter_empty, []) of
        Inl e \<Rightarrow> Inl e
      | Inr (before_count, after_count, score_block) \<Rightarrow> Inr score_block)"

subsection \<open>The windows of a gap, as the specification words them\<close>

text \<open>
  The specification takes the counts at gap \<open>i\<close> from the groups of the gap's own windows:
  the before-window is the groups \<open>[i - c, i)\<close>, the after-window the groups \<open>[i, i + c)\<close>,
  and a window is aggregated by summing the counts of its member groups.
  \<open>spec_window groups lo hi\<close> is that aggregate for the groups \<open>[lo, hi)\<close>. It is not part of
  the source; the theorems below compare the source's counters with it.
\<close>

definition spec_window :: "'a list list \<Rightarrow> nat \<Rightarrow> nat \<Rightarrow> 'a counter" where
  "spec_window groups lo hi = Counter (concat (take (hi - lo) (drop lo groups)))"

section \<open>Auxiliary facts\<close>

lemmas eval_defs = block_score_def gap_body_def current_k_def py_index_def Counter_def counter_incr_def
  counter_get_def counter_add_def counter_keys_def Counter_empty_def upto.simps spec_window_def

subsection \<open>Counters\<close>

lemma counter_keys_incr:
  "set (counter_keys (counter_incr c key)) = insert key (set (counter_keys c))"
  by (auto simp: counter_keys_def counter_incr_def update_keys)

lemma counter_keys_empty: "counter_keys Counter_empty = []"
  by (simp add: counter_keys_def Counter_empty_def)

subsection \<open>The paragraph loop\<close>

lemma paragraph_loop_tokens:
  "fst (paragraph_loop ps (tokens, tc, pbs)) = tokens @ concat (map findall ps)"
  by (induction ps arbitrary: tokens tc pbs) (simp_all add: Let_def)

lemma paragraph_loop_breaks_length:
  "length (snd (snd (paragraph_loop ps (tokens, tc, pbs)))) = length pbs + length ps"
  by (induction ps arbitrary: tokens tc pbs) (simp_all add: Let_def)

lemma paragraph_loop_breaks_sorted:
  "sorted pbs \<Longrightarrow> \<forall>b \<in> set pbs. b \<le> tc \<Longrightarrow>
   sorted (snd (snd (paragraph_loop ps (tokens, tc, pbs)))) \<and>
   (\<forall>b \<in> set (snd (snd (paragraph_loop ps (tokens, tc, pbs)))).
       b \<le> tc + int (length (concat (map findall ps))))"
proof (induction ps arbitrary: tokens tc pbs)
  case Nil
  then show ?case by simp
next
  case (Cons p ps)
  let ?tc = "tc + int (length (findall p))"
  have s: "sorted (pbs @ [?tc])"
    using Cons.prems by (auto simp: sorted_append)
  have b: "\<forall>b \<in> set (pbs @ [?tc]). b \<le> ?tc"
    using Cons.prems by auto
  from Cons.IH [OF s b, of "tokens @ findall p"] show ?case
    by (simp add: Let_def add.assoc)
qed

lemma paragraph_loop_breaks_strict:
  "sorted_wrt (<) pbs \<Longrightarrow> \<forall>b \<in> set pbs. b \<le> tc \<Longrightarrow> \<forall>p \<in> set ps. findall p \<noteq> [] \<Longrightarrow>
   sorted_wrt (<) (snd (snd (paragraph_loop ps (tokens, tc, pbs)))) \<and>
   (\<forall>b \<in> set (butlast (snd (snd (paragraph_loop ps (tokens, tc, pbs))))).
       ps \<noteq> [] \<longrightarrow> b < tc + int (length (concat (map findall ps))))"
proof (induction ps arbitrary: tokens tc pbs)
  case Nil
  then show ?case by simp
next
  case (Cons p ps)
  let ?tc = "tc + int (length (findall p))"
  have pos: "0 < length (findall p)" using Cons.prems(3) by simp
  have lt: "b < ?tc" if "b \<in> set pbs" for b
  proof -
    from Cons.prems(2) that have "b \<le> tc" by blast
    moreover from pos have "0 < int (length (findall p))" by linarith
    ultimately show ?thesis by linarith
  qed
  have s: "sorted_wrt (<) (pbs @ [?tc])"
    using Cons.prems(1) lt by (simp add: sorted_wrt_append)
  have b: "\<forall>b \<in> set (pbs @ [?tc]). b \<le> ?tc"
    using Cons.prems by auto
  have a: "\<forall>p \<in> set ps. findall p \<noteq> []" using Cons.prems(3) by simp
  note IH = Cons.IH [OF s b a, of "tokens @ findall p"]
  show ?case
  proof (cases "ps = []")
    case True
    with s lt show ?thesis by (simp add: Let_def butlast_append)
  next
    case False
    with IH show ?thesis by (simp add: Let_def add.assoc)
  qed
qed

subsection \<open>The grouping loop\<close>

lemma group_loop_total:
  "w \<noteq> 0 \<Longrightarrow> \<exists>c' i' ts'. group_loop w toks (c, i, ts) = Inr (c', i', ts')"
  by (induction toks arbitrary: c i ts) (simp_all add: Let_def)

lemma group_loop_zero:
  "group_loop 0 toks st = (if toks = [] then Inr st else Inl ZeroDivisionError)"
  by (cases toks; cases st) simp_all

lemma group_loop_minus: "group_loop (- w) toks (c, i, ts) = group_loop w toks (c, i, ts)"
  by (induction toks arbitrary: c i ts) (simp_all add: Let_def mod_eq_0_iff_dvd)

lemma group_loop_keys:
  "group_loop w toks (c, i, ts) = Inr (c', i', ts') \<Longrightarrow>
   set (counter_keys c') \<union> (\<Union>s \<in> set ts'. set (counter_keys s))
     \<subseteq> set toks \<union> set (counter_keys c) \<union> (\<Union>s \<in> set ts. set (counter_keys s))"
proof (induction toks arbitrary: c i ts)
  case Nil
  then show ?case by auto
next
  case (Cons t toks)
  from Cons.prems have w: "w \<noteq> 0" by (auto simp: Let_def split: if_splits)
  show ?case
  proof (cases "(i + 1) mod w = 0")
    case True
    with Cons.prems w
    have "group_loop w toks (Counter_empty, 0, ts @ [counter_incr c t]) = Inr (c', i', ts')"
      by (simp add: Let_def)
    from Cons.IH [OF this] show ?thesis
      by (auto simp: counter_keys_incr counter_keys_empty)
  next
    case False
    with Cons.prems w
    have "group_loop w toks (counter_incr c t, i + 1, ts) = Inr (c', i', ts')"
      by (simp add: Let_def)
    from Cons.IH [OF this] show ?thesis
      by (auto simp: counter_keys_incr)
  qed
qed

subsection \<open>What tokenize_string returns\<close>

lemma set_py_set: "set (py_set xs) = set xs"
  by (simp add: py_set_def)

lemma distinct_py_set: "distinct (py_set xs)"
  by (simp add: py_set_def)

lemma tokenize_string_unfold:
  "tokenize_string stop_words lemmatize input_string w =
     (case group_loop w (raw_tokens input_string) (Counter_empty, 0, []) of
        Inl e \<Rightarrow> Inl e
      | Inr (count, index, token_sequences) \<Rightarrow>
          Inr (map (\<lambda>s. map lemmatize
                      [lemmatize word. word \<leftarrow> counter_keys s, word \<notin> set stop_words])
                 token_sequences,
               [word. word \<leftarrow> py_set (raw_tokens input_string), word \<notin> set stop_words],
               butlast (snd (snd (paragraph_loop (paragraphs_of input_string) ([], 0, []))))))"
  by (simp add: tokenize_string_def raw_tokens_def Let_def split: prod.splits sum.splits)

lemma comprehension_filter: "[x. x \<leftarrow> xs, P x] = filter P xs"
  by (induction xs) simp_all

lemma comprehension_map_filter: "[f x. x \<leftarrow> xs, P x] = map f (filter P xs)"
  by (induction xs) simp_all

lemma tokenize_string_result:
  "tokenize_string stop_words lemmatize input_string w =
     (case group_loop w (raw_tokens input_string) (Counter_empty, 0, []) of
        Inl e \<Rightarrow> Inl e
      | Inr (count, index, token_sequences) \<Rightarrow>
          Inr (map (\<lambda>s. map (lemmatize \<circ> lemmatize)
                      (filter (\<lambda>word. word \<notin> set stop_words) (counter_keys s)))
                 token_sequences,
               filter (\<lambda>word. word \<notin> set stop_words) (py_set (raw_tokens input_string)),
               butlast (snd (snd (paragraph_loop (paragraphs_of input_string) ([], 0, []))))))"
  by (simp add: tokenize_string_unfold comprehension_filter comprehension_map_filter
      split: sum.splits)

subsection \<open>The block scorer never leaves the sequence\<close>

lemma py_index_in_range:
  "0 \<le> i \<Longrightarrow> i < int (length xs) \<Longrightarrow> py_index xs i = Inr (xs ! nat i)"
  by (simp add: py_index_def)

lemma window_loop_total:
  "\<forall>j \<in> set js. 0 \<le> g + j - c \<and> g + j - c < int (length ts) \<and> 0 \<le> g + j \<and> g + j < int (length ts)
   \<Longrightarrow> \<exists>bc' ac'. window_loop ts g c js (bc, ac) = Inr (bc', ac')"
proof (induction js arbitrary: bc ac)
  case Nil
  show ?case by simp
next
  case (Cons j js)
  from Cons.prems have b: "py_index ts (g + j - c) = Inr (ts ! nat (g + j - c))"
    by (intro py_index_in_range) simp_all
  from Cons.prems have a: "py_index ts (g + j) = Inr (ts ! nat (g + j))"
    by (intro py_index_in_range) simp_all
  from Cons.prems have "\<forall>j \<in> set js. 0 \<le> g + j - c \<and> g + j - c < int (length ts) \<and> 0 \<le> g + j \<and> g + j < int (length ts)"
    by simp
  from Cons.IH [OF this] a b show ?case by simp
qed

lemma window_indices:
  assumes "1 \<le> g" "g < n" "j \<in> set [0..min g (min k (n - g)) - 1]"
  shows "0 \<le> g + j - min g (min k (n - g)) \<and> g + j - min g (min k (n - g)) < n \<and>
         0 \<le> g + j \<and> g + j < n"
  using assms by auto

lemma gap_body_total:
  assumes "1 \<le> g" "g < int (length ts)"
  shows "\<exists>bc' ac' s. gap_body k ts ut g (bc, ac, sb) = Inr (bc', ac', sb @ [s])"
proof -
  let ?c = "min g (min k (int (length ts) - g))"
  have "\<forall>j \<in> set [0..?c - 1]. 0 \<le> g + j - ?c \<and> g + j - ?c < int (length ts) \<and> 0 \<le> g + j \<and> g + j < int (length ts)"
    using window_indices [OF assms] by blast
  from window_loop_total [OF this, of bc ac]
  obtain bc' ac' where "window_loop ts g ?c [0..?c - 1] (bc, ac) = Inr (bc', ac')"
    by blast
  then show ?thesis
    by (simp add: gap_body_def current_k_def Let_def split: prod.splits)
qed

lemma gap_loop_total:
  "\<forall>g \<in> set gs. 1 \<le> g \<and> g < int (length ts) \<Longrightarrow>
   \<exists>bc' ac' sb'. gap_loop k ts ut gs (bc, ac, sb) = Inr (bc', ac', sb @ sb') \<and> length sb' = length gs"
proof (induction gs arbitrary: bc ac sb)
  case Nil
  show ?case by simp
next
  case (Cons g gs)
  from Cons.prems have "1 \<le> g" "g < int (length ts)" by simp_all
  from gap_body_total [OF this, of k ut bc ac sb]
  obtain bc1 ac1 s where b: "gap_body k ts ut g (bc, ac, sb) = Inr (bc1, ac1, sb @ [s])"
    by blast
  from Cons.prems have "\<forall>g \<in> set gs. 1 \<le> g \<and> g < int (length ts)" by simp
  from Cons.IH [OF this, of bc1 ac1 "sb @ [s]"]
  obtain bc' ac' sb' where
    "gap_loop k ts ut gs (bc1, ac1, sb @ [s]) = Inr (bc', ac', (sb @ [s]) @ sb')" "length sb' = length gs"
    by blast
  with b have "gap_loop k ts ut (g # gs) (bc, ac, sb) = Inr (bc', ac', sb @ (s # sb')) \<and> length (s # sb') = length (g # gs)"
    by simp
  then show ?case by blast
qed

lemma gap_loop_append:
  "gap_loop k ts ut (xs @ ys) st =
     (case gap_loop k ts ut xs st of Inl e \<Rightarrow> Inl e | Inr st' \<Rightarrow> gap_loop k ts ut ys st')"
  by (induction xs arbitrary: st) (simp_all split: sum.splits)

lemma block_score_returns:
  "\<exists>scores. block_score k ts ut = Inr scores \<and> length scores = length ts - 1"
proof -
  have "\<forall>g \<in> set [1..int (length ts) - 1]. 1 \<le> g \<and> g < int (length ts)" by simp
  from gap_loop_total [OF this, of k ut Counter_empty Counter_empty "[]"]
  show ?thesis by (auto simp: block_score_def)
qed

lemma block_score_prefix:
  assumes "block_score k ts ut = Inr scores" "m \<le> length ts - 1"
  shows "\<exists>bc ac. gap_loop k ts ut [1..int m] (Counter_empty, Counter_empty, []) = Inr (bc, ac, take m scores)"
proof (cases "m = 0")
  case True
  then show ?thesis by simp
next
  case False
  with assms(2) have m: "1 \<le> int m" "int m \<le> int (length ts) - 1" by linarith+
  have split: "[1..int (length ts) - 1] = [1..int m] @ [int m + 1..int (length ts) - 1]"
    using m by (rule upto_split2)
  have r1: "\<forall>g \<in> set [1..int m]. 1 \<le> g \<and> g < int (length ts)" using m by auto
  from gap_loop_total [OF r1, of k ut Counter_empty Counter_empty "[]"]
  obtain bc1 ac1 sb1 where
    1: "gap_loop k ts ut [1..int m] (Counter_empty, Counter_empty, []) = Inr (bc1, ac1, sb1)"
    and l1: "length sb1 = m" by auto
  have r2: "\<forall>g \<in> set [int m + 1..int (length ts) - 1]. 1 \<le> g \<and> g < int (length ts)" by auto
  from gap_loop_total [OF r2, of k ut bc1 ac1 sb1]
  obtain bc2 ac2 sb2 where
    2: "gap_loop k ts ut [int m + 1..int (length ts) - 1] (bc1, ac1, sb1) = Inr (bc2, ac2, sb1 @ sb2)"
    by auto
  have "block_score k ts ut = Inr (sb1 @ sb2)"
    unfolding block_score_def split gap_loop_append 1 using 2 by simp
  with assms(1) have "scores = sb1 @ sb2" by simp
  with l1 have "take m scores = sb1" by simp
  with 1 show ?thesis by simp
qed

subsection \<open>The groups a gap reads\<close>

lemma window_loop_reads:
  assumes "\<forall>j \<in> set js. 0 \<le> g + j - c \<and> g + j - c < int (length ts) \<and> 0 \<le> g + j \<and> g + j < int (length ts)"
  shows "window_loop ts g c js (bc, ac) =
     Inr (foldl counter_add bc (map (\<lambda>j. Counter (ts ! nat (g + j - c))) js),
          foldl counter_add ac (map (\<lambda>j. Counter (ts ! nat (g + j))) js))"
  using assms
proof (induction js arbitrary: bc ac)
  case Nil
  show ?case by simp
next
  case (Cons j js)
  from Cons.prems have b: "py_index ts (g + j - c) = Inr (ts ! nat (g + j - c))"
    by (intro py_index_in_range) simp_all
  from Cons.prems have a: "py_index ts (g + j) = Inr (ts ! nat (g + j))"
    by (intro py_index_in_range) simp_all
  from Cons.prems have "\<forall>j \<in> set js. 0 \<le> g + j - c \<and> g + j - c < int (length ts) \<and> 0 \<le> g + j \<and> g + j < int (length ts)"
    by simp
  from Cons.IH [OF this] a b show ?case by simp
qed

lemma map_upto_window:
  assumes "0 \<le> lo" "0 \<le> c" "lo + c \<le> int (length ts)"
  shows "map (\<lambda>j. ts ! nat (lo + j)) [0..c - 1] = take (nat c) (drop (nat lo) ts)"
proof (rule nth_equalityI)
  show "length (map (\<lambda>j. ts ! nat (lo + j)) [0..c - 1]) = length (take (nat c) (drop (nat lo) ts))"
    using assms by simp
next
  fix i
  assume "i < length (map (\<lambda>j. ts ! nat (lo + j)) [0..c - 1])"
  then have i: "int i < c" using assms by simp
  then have u: "[0..c - 1] ! i = int i" by (simp add: nth_upto)
  have l: "i < length [0..c - 1]" using i by simp
  have "map (\<lambda>j. ts ! nat (lo + j)) [0..c - 1] ! i = ts ! nat (lo + int i)"
    using l u by simp
  also have "nat (lo + int i) = nat lo + i" using assms(1) by simp
  also have "ts ! (nat lo + i) = take (nat c) (drop (nat lo) ts) ! i"
    using i assms by simp
  finally show "map (\<lambda>j. ts ! nat (lo + j)) [0..c - 1] ! i = take (nat c) (drop (nat lo) ts) ! i" .
qed

lemma current_k_bounds:
  assumes "0 < k" "1 \<le> g" "g < int (length ts)"
  shows "0 < current_k k ts g" "current_k k ts g \<le> k" "0 \<le> g - current_k k ts g"
    "g + current_k k ts g \<le> int (length ts)"
  using assms by (simp_all add: current_k_def)

lemma gap_body_windows:
  assumes "0 < k" "1 \<le> g" "g < int (length ts)"
  shows "\<exists>s. gap_body k ts ut g (bc, ac, sb) =
     Inr (foldl counter_add bc
            (map Counter (take (nat (current_k k ts g)) (drop (nat (g - current_k k ts g)) ts))),
          foldl counter_add ac
            (map Counter (take (nat (current_k k ts g)) (drop (nat g) ts))),
          sb @ [s])"
proof -
  let ?c = "current_k k ts g"
  note cb = current_k_bounds [OF assms]
  have r: "\<forall>j \<in> set [0..?c - 1]. 0 \<le> g + j - ?c \<and> g + j - ?c < int (length ts) \<and> 0 \<le> g + j \<and> g + j < int (length ts)"
    using cb assms by auto
  have c0: "0 \<le> ?c" using cb(1) by simp
  have g0: "0 \<le> g" using assms(2) by simp
  have gn: "g - ?c + ?c \<le> int (length ts)" using assms(3) by simp
  have b: "map (\<lambda>j. Counter (ts ! nat (g + j - ?c))) [0..?c - 1]
             = map Counter (take (nat ?c) (drop (nat (g - ?c)) ts))"
  proof -
    have "map (\<lambda>j. ts ! nat (g - ?c + j)) [0..?c - 1] = take (nat ?c) (drop (nat (g - ?c)) ts)"
      using cb(3) c0 gn by (rule map_upto_window)
    then have "map Counter (map (\<lambda>j. ts ! nat (g - ?c + j)) [0..?c - 1])
        = map Counter (take (nat ?c) (drop (nat (g - ?c)) ts))" by simp
    moreover have "(\<lambda>j. Counter (ts ! nat (g + j - ?c))) = Counter \<circ> (\<lambda>j. ts ! nat (g - ?c + j))"
      by (rule ext) (simp add: algebra_simps)
    ultimately show ?thesis by (simp only: map_map)
  qed
  have a: "map (\<lambda>j. Counter (ts ! nat (g + j))) [0..?c - 1]
             = map Counter (take (nat ?c) (drop (nat g) ts))"
  proof -
    have "map (\<lambda>j. ts ! nat (g + j)) [0..?c - 1] = take (nat ?c) (drop (nat g) ts)"
      using g0 c0 cb(4) by (rule map_upto_window)
    then have "map Counter (map (\<lambda>j. ts ! nat (g + j)) [0..?c - 1])
        = map Counter (take (nat ?c) (drop (nat g) ts))" by simp
    moreover have "(\<lambda>j. Counter (ts ! nat (g + j))) = Counter \<circ> (\<lambda>j. ts ! nat (g + j))"
      by (rule ext) simp
    ultimately show ?thesis by (simp only: map_map)
  qed
  have w: "window_loop ts g ?c [0..?c - 1] (bc, ac) =
     Inr (foldl counter_add bc (map Counter (take (nat ?c) (drop (nat (g - ?c)) ts))),
          foldl counter_add ac (map Counter (take (nat ?c) (drop (nat g) ts))))"
    unfolding window_loop_reads [OF r] a b ..
  show ?thesis
    by (simp add: gap_body_def Let_def w split: prod.splits)
qed

subsection \<open>Arguments that are not positive\<close>

lemma counter_get_empty: "counter_get Counter_empty key = 0"
  by (simp add: counter_get_def Counter_empty_def)

lemma token_loop_empty: "token_loop Counter_empty Counter_empty ut st = st"
proof (induction ut arbitrary: st)
  case Nil
  show ?case by simp
next
  case (Cons t ut)
  obtain n b a where st: "st = (n, b, a)" by (cases st)
  show ?case unfolding st by (simp add: counter_get_empty Cons.IH)
qed

lemma gap_body_nonpositive:
  assumes "k \<le> 0"
  shows "gap_body k ts ut g (Counter_empty, Counter_empty, sb)
           = Inr (Counter_empty, Counter_empty, sb @ [0])"
proof -
  have "min g (min k (int (length ts) - g)) - 1 < 0" using assms by simp
  then have "[0..min g (min k (int (length ts) - g)) - 1] = []" by simp
  then show ?thesis
    by (simp add: gap_body_def current_k_def Let_def token_loop_empty)
qed

lemma gap_loop_nonpositive:
  assumes "k \<le> 0"
  shows "gap_loop k ts ut gs (Counter_empty, Counter_empty, sb)
           = Inr (Counter_empty, Counter_empty, sb @ replicate (length gs) 0)"
proof (induction gs arbitrary: sb)
  case Nil
  show ?case by simp
next
  case (Cons g gs)
  show ?case
    by (simp add: gap_body_nonpositive [OF assms] Cons.IH replicate_app_Cons_same)
qed

lemma tokenize_string_minus:
  "tokenize_string stop_words lemmatize input_string (- w)
     = tokenize_string stop_words lemmatize input_string w"
  by (simp add: tokenize_string_result group_loop_minus)

subsection \<open>Every score lies between 0 and 1\<close>

lemma token_loop_sums:
  "token_loop bc ac ut (n, b, a) =
     (n + (\<Sum>t\<leftarrow>ut. real_of_int (counter_get bc t) * real_of_int (counter_get ac t)),
      b + (\<Sum>t\<leftarrow>ut. (real_of_int (counter_get bc t))\<^sup>2),
      a + (\<Sum>t\<leftarrow>ut. (real_of_int (counter_get ac t))\<^sup>2))"
  by (induction ut arbitrary: n b a) (simp_all add: algebra_simps)

lemma cross_term_bound:
  fixes a b u v :: real
  shows "2 * (a * b) * (u * v) \<le> a\<^sup>2 * v\<^sup>2 + b\<^sup>2 * u\<^sup>2"
proof -
  have "0 \<le> (a * v - b * u)\<^sup>2" by simp
  also have "\<dots> = a\<^sup>2 * v\<^sup>2 + b\<^sup>2 * u\<^sup>2 - 2 * (a * b) * (u * v)"
    by (simp add: power2_eq_square algebra_simps)
  finally show ?thesis by simp
qed

lemma abs_cross_term:
  fixes p q s :: real
  shows "2 * (p * q) * s \<le> 2 * (\<bar>p\<bar> * \<bar>q\<bar>) * \<bar>s\<bar>"
proof -
  have "(p * q) * s \<le> \<bar>(p * q) * s\<bar>" by (rule abs_ge_self)
  also have "\<dots> = (\<bar>p\<bar> * \<bar>q\<bar>) * \<bar>s\<bar>" by (simp add: abs_mult)
  finally show ?thesis by simp
qed

lemma sum_list_products_bound:
  fixes f g :: "'a \<Rightarrow> real"
  shows "(\<Sum>x\<leftarrow>xs. f x * g x)\<^sup>2 \<le> (\<Sum>x\<leftarrow>xs. (f x)\<^sup>2) * (\<Sum>x\<leftarrow>xs. (g x)\<^sup>2)"
proof (induction xs)
  case Nil
  show ?case by simp
next
  case (Cons x xs)
  define S A B where "S = (\<Sum>x\<leftarrow>xs. f x * g x)"
    and "A = (\<Sum>x\<leftarrow>xs. (f x)\<^sup>2)" and "B = (\<Sum>x\<leftarrow>xs. (g x)\<^sup>2)"
  define p q where "p = f x" and "q = g x"
  have A: "0 \<le> A" unfolding A_def by (rule sum_list_nonneg) auto
  have B: "0 \<le> B" unfolding B_def by (rule sum_list_nonneg) auto
  have IH: "S\<^sup>2 \<le> A * B" using Cons.IH by (simp only: S_def A_def B_def)
  then have "sqrt (S\<^sup>2) \<le> sqrt (A * B)" by (simp only: real_sqrt_le_iff)
  then have S: "\<bar>S\<bar> \<le> sqrt A * sqrt B" by (simp only: real_sqrt_abs real_sqrt_mult)
  have "2 * (\<bar>p\<bar> * \<bar>q\<bar>) * (sqrt A * sqrt B) \<le> \<bar>p\<bar>\<^sup>2 * (sqrt B)\<^sup>2 + \<bar>q\<bar>\<^sup>2 * (sqrt A)\<^sup>2"
    by (rule cross_term_bound)
  then have am: "2 * (\<bar>p\<bar> * \<bar>q\<bar>) * (sqrt A * sqrt B) \<le> p\<^sup>2 * B + q\<^sup>2 * A"
    using A B by simp
  have nn: "0 \<le> 2 * (\<bar>p\<bar> * \<bar>q\<bar>)" by simp
  have "2 * (p * q) * S \<le> 2 * (\<bar>p\<bar> * \<bar>q\<bar>) * \<bar>S\<bar>"
    by (rule abs_cross_term)
  also have "\<dots> \<le> 2 * (\<bar>p\<bar> * \<bar>q\<bar>) * (sqrt A * sqrt B)"
    using S nn by (rule mult_left_mono)
  finally have cross: "2 * (p * q) * S \<le> p\<^sup>2 * B + q\<^sup>2 * A"
    using am by linarith
  have "(p * q + S)\<^sup>2 = p\<^sup>2 * q\<^sup>2 + 2 * (p * q) * S + S\<^sup>2"
    by (simp add: power2_eq_square algebra_simps)
  also have "\<dots> \<le> p\<^sup>2 * q\<^sup>2 + (p\<^sup>2 * B + q\<^sup>2 * A) + A * B"
    using cross IH by linarith
  also have "\<dots> = (p\<^sup>2 + A) * (q\<^sup>2 + B)"
    by (simp add: algebra_simps)
  finally have "(p * q + S)\<^sup>2 \<le> (p\<^sup>2 + A) * (q\<^sup>2 + B)" .
  then show ?case
    by (simp only: list.map sum_list.Cons S_def A_def B_def p_def q_def)
qed

lemma score_between:
  fixes f g :: "'a \<Rightarrow> real"
  assumes f: "\<And>t. 0 \<le> f t" and g: "\<And>t. 0 \<le> g t"
    and n: "n = (\<Sum>t\<leftarrow>ut. f t * g t)"
    and d: "d = sqrt ((\<Sum>t\<leftarrow>ut. (f t)\<^sup>2) * (\<Sum>t\<leftarrow>ut. (g t)\<^sup>2))"
  shows "0 \<le> n / (if d = 0 then 1 else d) \<and> n / (if d = 0 then 1 else d) \<le> 1"
proof -
  have n0: "0 \<le> n" unfolding n by (rule sum_list_nonneg) (auto simp: f g)
  have "n\<^sup>2 \<le> (\<Sum>t\<leftarrow>ut. (f t)\<^sup>2) * (\<Sum>t\<leftarrow>ut. (g t)\<^sup>2)"
    unfolding n by (rule sum_list_products_bound)
  then have nd: "n \<le> d" unfolding d by (rule real_le_rsqrt)
  show ?thesis
  proof (cases "d = 0")
    case True
    with n0 nd show ?thesis by simp
  next
    case False
    with n0 nd have "0 < d" by linarith
    with n0 nd show ?thesis by simp
  qed
qed

lemma counter_add_positive: "\<forall>n \<in> snd ` set (counter_add a b). 0 < n"
  by (auto simp: counter_add_def)

lemma counter_get_nonneg:
  assumes "\<forall>n \<in> snd ` set c. 0 < n"
  shows "0 \<le> counter_get c key"
proof (cases "map_of c key")
  case None
  then show ?thesis by (simp add: counter_get_def)
next
  case (Some n)
  then have "(key, n) \<in> set c" by (rule map_of_SomeD)
  then have "n \<in> snd ` set c" by force
  with assms have "0 < n" by blast
  with Some show ?thesis by (simp add: counter_get_def)
qed

lemma window_loop_positive:
  assumes "window_loop ts g c js (bc, ac) = Inr (bc', ac')"
    and "\<forall>n \<in> snd ` set bc. 0 < n" "\<forall>n \<in> snd ` set ac. 0 < n"
  shows "(\<forall>n \<in> snd ` set bc'. 0 < n) \<and> (\<forall>n \<in> snd ` set ac'. 0 < n)"
  using assms
proof (induction js arbitrary: bc ac)
  case Nil
  then show ?case by simp
next
  case (Cons j js)
  from Cons.prems(1) obtain b a where
    "window_loop ts g c js (counter_add bc (Counter b), counter_add ac (Counter a)) = Inr (bc', ac')"
    by (auto split: sum.splits)
  from Cons.IH [OF this counter_add_positive counter_add_positive] show ?case .
qed

lemma gap_body_score_range:
  assumes "gap_body k ts ut g (bc, ac, sb) = Inr (bc', ac', sb')"
    and "\<forall>n \<in> snd ` set bc. 0 < n" "\<forall>n \<in> snd ` set ac. 0 < n"
  shows "(\<forall>n \<in> snd ` set bc'. 0 < n) \<and> (\<forall>n \<in> snd ` set ac'. 0 < n) \<and>
         (\<exists>s. sb' = sb @ [s] \<and> 0 \<le> s \<and> s \<le> 1)"
proof -
  let ?c = "min g (min k (int (length ts) - g))"
  from assms(1) obtain bc1 ac1 where
    w: "window_loop ts g ?c [0..?c - 1] (bc, ac) = Inr (bc1, ac1)"
    by (auto simp: gap_body_def current_k_def Let_def split: sum.splits)
  from window_loop_positive [OF w assms(2,3)]
  have p: "\<forall>n \<in> snd ` set bc1. 0 < n" "\<forall>n \<in> snd ` set ac1. 0 < n" by simp_all
  let ?f = "\<lambda>t. real_of_int (counter_get bc1 t)"
  let ?g = "\<lambda>t. real_of_int (counter_get ac1 t)"
  define n where "n = (\<Sum>t\<leftarrow>ut. ?f t * ?g t)"
  define d where "d = sqrt ((\<Sum>t\<leftarrow>ut. (?f t)\<^sup>2) * (\<Sum>t\<leftarrow>ut. (?g t)\<^sup>2))"
  have r: "0 \<le> n / (if d = 0 then 1 else d) \<and> n / (if d = 0 then 1 else d) \<le> 1"
    by (rule score_between [OF _ _ n_def d_def]) (simp_all add: counter_get_nonneg p)
  have tl: "token_loop bc1 ac1 ut (0, 0, 0) =
      (\<Sum>t\<leftarrow>ut. ?f t * ?g t, \<Sum>t\<leftarrow>ut. (?f t)\<^sup>2, \<Sum>t\<leftarrow>ut. (?g t)\<^sup>2)"
    by (simp add: token_loop_sums)
  have "gap_body k ts ut g (bc, ac, sb) = Inr (bc1, ac1, sb @ [n / (if d = 0 then 1 else d)])"
    by (simp only: gap_body_def current_k_def Let_def prod.case w sum.case tl n_def d_def)
  with assms(1) have eqs: "bc' = bc1" "ac' = ac1" "sb' = sb @ [n / (if d = 0 then 1 else d)]"
    by simp_all
  from p r show ?thesis unfolding eqs by blast
qed

lemma gap_loop_score_range:
  assumes "gap_loop k ts ut gs (bc, ac, sb) = Inr (bc', ac', sb')"
    and "\<forall>n \<in> snd ` set bc. 0 < n" "\<forall>n \<in> snd ` set ac. 0 < n"
    and "\<forall>s \<in> set sb. 0 \<le> s \<and> s \<le> 1"
  shows "\<forall>s \<in> set sb'. 0 \<le> s \<and> s \<le> 1"
  using assms
proof (induction gs arbitrary: bc ac sb)
  case Nil
  then show ?case by simp
next
  case (Cons g gs)
  from Cons.prems(1) obtain bc1 ac1 sb1 where
    b: "gap_body k ts ut g (bc, ac, sb) = Inr (bc1, ac1, sb1)"
    and l: "gap_loop k ts ut gs (bc1, ac1, sb1) = Inr (bc', ac', sb')"
    by (auto split: sum.splits)
  from gap_body_score_range [OF b Cons.prems(2,3)]
  obtain s where p: "\<forall>n \<in> snd ` set bc1. 0 < n" "\<forall>n \<in> snd ` set ac1. 0 < n"
    and s: "sb1 = sb @ [s]" "0 \<le> s" "s \<le> 1" by blast
  from s Cons.prems(4) have "\<forall>s \<in> set sb1. 0 \<le> s \<and> s \<le> 1" by auto
  from Cons.IH [OF l p this] show ?case .
qed

lemma block_score_range:
  assumes "block_score k ts ut = Inr scores"
  shows "\<forall>s \<in> set scores. 0 \<le> s \<and> s \<le> 1"
proof -
  from assms obtain bc ac where
    "gap_loop k ts ut [1..int (length ts) - 1] (Counter_empty, Counter_empty, []) = Inr (bc, ac, scores)"
    by (auto simp: block_score_def split: sum.splits)
  from gap_loop_score_range [OF this] show ?thesis
    by (simp add: Counter_empty_def)
qed

section \<open>The block scorer\<close>

text \<open>
  Claim C8. For every token-group sequence and every \<open>k > 0\<close>, \<open>block_score\<close> returns
  (no exception is raised), and it returns exactly \<open>len(groups) - 1\<close> scores, none when
  there are fewer than two groups. The scores are in ascending gap order: the first \<open>m\<close>
  scores are those the loop has appended after the gaps \<open>1, ..., m\<close>. At every gap the
  half-width \<open>current_k\<close> of line 120 is positive, and every index the inner loop reads,
  \<open>gap_index + j - current_k\<close> and \<open>gap_index + j\<close> for \<open>0 \<le> j < current_k\<close>, lies inside the
  sequence: it is not negative, so \<open>py_index\<close> reads it from the front and never wraps to the
  end. Hence the body of the loop adds to \<open>before_count\<close> exactly the groups
  \<open>[gap_index - current_k, gap_index)\<close> and to \<open>after_count\<close> exactly the groups
  \<open>[gap_index, gap_index + current_k)\<close>, whatever the counters held before.
\<close>

theorem block_score_length:
  assumes "0 < k"
  shows "\<exists>scores. block_score k token_sequence unique_tokens = Inr scores \<and>
     length scores = length token_sequence - 1 \<and>
     (length token_sequence < 2 \<longrightarrow> scores = []) \<and>
     (\<forall>m \<le> length token_sequence - 1.
        \<exists>before_count after_count.
          gap_loop k token_sequence unique_tokens [1..int m] (Counter_empty, Counter_empty, [])
            = Inr (before_count, after_count, take m scores)) \<and>
     (\<forall>gap_index \<in> set [1..int (length token_sequence) - 1].
        0 < current_k k token_sequence gap_index \<and>
        (\<forall>j \<in> set [0..current_k k token_sequence gap_index - 1].
           0 \<le> gap_index + j - current_k k token_sequence gap_index \<and>
           gap_index + j < int (length token_sequence) \<and>
           py_index token_sequence (gap_index + j - current_k k token_sequence gap_index)
             = Inr (token_sequence ! nat (gap_index + j - current_k k token_sequence gap_index)) \<and>
           py_index token_sequence (gap_index + j)
             = Inr (token_sequence ! nat (gap_index + j))) \<and>
        (\<forall>before_count after_count score_block. \<exists>score.
           gap_body k token_sequence unique_tokens gap_index
               (before_count, after_count, score_block)
             = Inr (foldl counter_add before_count
                      (map Counter
                         (take (nat (current_k k token_sequence gap_index))
                            (drop (nat (gap_index - current_k k token_sequence gap_index))
                               token_sequence))),
                    foldl counter_add after_count
                      (map Counter
                         (take (nat (current_k k token_sequence gap_index))
                            (drop (nat gap_index) token_sequence))),
                    score_block @ [score])))"
proof -
  let ?n = "int (length token_sequence)"
  from block_score_returns [of k token_sequence unique_tokens]
  obtain scores where s: "block_score k token_sequence unique_tokens = Inr scores"
    and l: "length scores = length token_sequence - 1" by blast
  have e: "length token_sequence < 2 \<longrightarrow> scores = []" using l by auto
  have p: "\<forall>m \<le> length token_sequence - 1.
        \<exists>before_count after_count.
          gap_loop k token_sequence unique_tokens [1..int m] (Counter_empty, Counter_empty, [])
            = Inr (before_count, after_count, take m scores)"
    using block_score_prefix [OF s] by blast
  have i: "0 < current_k k token_sequence g \<and>
        (\<forall>j \<in> set [0..current_k k token_sequence g - 1].
           0 \<le> g + j - current_k k token_sequence g \<and>
           g + j < ?n \<and>
           py_index token_sequence (g + j - current_k k token_sequence g)
             = Inr (token_sequence ! nat (g + j - current_k k token_sequence g)) \<and>
           py_index token_sequence (g + j) = Inr (token_sequence ! nat (g + j))) \<and>
        (\<forall>before_count after_count score_block. \<exists>score.
           gap_body k token_sequence unique_tokens g (before_count, after_count, score_block)
             = Inr (foldl counter_add before_count
                      (map Counter
                         (take (nat (current_k k token_sequence g))
                            (drop (nat (g - current_k k token_sequence g)) token_sequence))),
                    foldl counter_add after_count
                      (map Counter
                         (take (nat (current_k k token_sequence g))
                            (drop (nat g) token_sequence))),
                    score_block @ [score]))"
    if "g \<in> set [1..?n - 1]" for g
  proof -
    from that have g: "1 \<le> g" "g < ?n" by simp_all
    note cb = current_k_bounds [OF assms g]
    have r: "0 \<le> g + j - current_k k token_sequence g \<and> g + j < ?n \<and>
           py_index token_sequence (g + j - current_k k token_sequence g)
             = Inr (token_sequence ! nat (g + j - current_k k token_sequence g)) \<and>
           py_index token_sequence (g + j) = Inr (token_sequence ! nat (g + j))"
      if "j \<in> set [0..current_k k token_sequence g - 1]" for j
    proof -
      from that have j: "0 \<le> j" "j < current_k k token_sequence g" by simp_all
      with cb g have b: "0 \<le> g + j - current_k k token_sequence g"
        "g + j - current_k k token_sequence g < ?n" "0 \<le> g + j" "g + j < ?n"
        by linarith+
      from b show ?thesis by (simp add: py_index_in_range)
    qed
    have w: "\<forall>before_count after_count score_block. \<exists>score.
           gap_body k token_sequence unique_tokens g (before_count, after_count, score_block)
             = Inr (foldl counter_add before_count
                      (map Counter
                         (take (nat (current_k k token_sequence g))
                            (drop (nat (g - current_k k token_sequence g)) token_sequence))),
                    foldl counter_add after_count
                      (map Counter
                         (take (nat (current_k k token_sequence g))
                            (drop (nat g) token_sequence))),
                    score_block @ [score])"
      by (intro allI) (rule gap_body_windows [OF assms g])
    have rb: "\<forall>j \<in> set [0..current_k k token_sequence g - 1].
           0 \<le> g + j - current_k k token_sequence g \<and> g + j < ?n \<and>
           py_index token_sequence (g + j - current_k k token_sequence g)
             = Inr (token_sequence ! nat (g + j - current_k k token_sequence g)) \<and>
           py_index token_sequence (g + j) = Inr (token_sequence ! nat (g + j))"
      by (intro ballI) (rule r)
    from cb(1) rb w show ?thesis by (intro conjI)
  qed
  show ?thesis
    apply (rule exI [of _ scores])
    apply (intro conjI)
        apply (rule s)
       apply (rule l)
      apply (rule e)
     apply (rule p)
    apply (rule ballI)
    apply (rule i)
    apply assumption
    done
qed

theorem block_score_length_witness:
  "(0::int) < 2 \<and>
   (\<exists>scores. block_score 2 [[''a''], [''b''], [''c'']] [''a'', ''b'', ''c''] = Inr scores \<and>
      length scores = 2) \<and>
   current_k 2 [[''a''], [''b''], [''c'']] 1 = 1 \<and>
   (\<exists>score. gap_body 2 [[''a''], [''b''], [''c'']] [''a'', ''b'', ''c''] 1
        (Counter_empty, Counter_empty, [])
      = Inr ([(''a'', 1)], [(''b'', 1)], [score]))"
proof -
  let ?ts = "[[''a''], [''b''], [''c'']]"
  let ?ut = "[''a'', ''b'', ''c'']"
  have k: "(0::int) < 2" by simp
  from block_score_length [OF k, of ?ts ?ut]
  obtain scores where s: "block_score 2 ?ts ?ut = Inr scores" "length scores = length ?ts - 1"
    and w: "\<forall>gap_index \<in> set [1..int (length ?ts) - 1].
        0 < current_k 2 ?ts gap_index \<and>
        (\<forall>j \<in> set [0..current_k 2 ?ts gap_index - 1].
           0 \<le> gap_index + j - current_k 2 ?ts gap_index \<and>
           gap_index + j < int (length ?ts) \<and>
           py_index ?ts (gap_index + j - current_k 2 ?ts gap_index)
             = Inr (?ts ! nat (gap_index + j - current_k 2 ?ts gap_index)) \<and>
           py_index ?ts (gap_index + j) = Inr (?ts ! nat (gap_index + j))) \<and>
        (\<forall>before_count after_count score_block. \<exists>score.
           gap_body 2 ?ts ?ut gap_index (before_count, after_count, score_block)
             = Inr (foldl counter_add before_count
                      (map Counter
                         (take (nat (current_k 2 ?ts gap_index))
                            (drop (nat (gap_index - current_k 2 ?ts gap_index)) ?ts))),
                    foldl counter_add after_count
                      (map Counter
                         (take (nat (current_k 2 ?ts gap_index))
                            (drop (nat gap_index) ?ts))),
                    score_block @ [score]))"
    by (elim exE conjE)
  have c: "current_k 2 ?ts 1 = 1" by (simp add: current_k_def)
  have m: "(1::int) \<in> set [1..int (length ?ts) - 1]" by simp
  from bspec [OF w m] have "\<forall>before_count after_count score_block. \<exists>score.
           gap_body 2 ?ts ?ut 1 (before_count, after_count, score_block)
             = Inr (foldl counter_add before_count
                      (map Counter (take (nat (current_k 2 ?ts 1)) (drop (nat (1 - current_k 2 ?ts 1)) ?ts))),
                    foldl counter_add after_count
                      (map Counter (take (nat (current_k 2 ?ts 1)) (drop (nat 1) ?ts))),
                    score_block @ [score])"
    by (elim conjE)
  then have "\<exists>score. gap_body 2 ?ts ?ut 1 (Counter_empty, Counter_empty, [])
             = Inr (foldl counter_add Counter_empty
                      (map Counter (take (nat (current_k 2 ?ts 1)) (drop (nat (1 - current_k 2 ?ts 1)) ?ts))),
                    foldl counter_add Counter_empty
                      (map Counter (take (nat (current_k 2 ?ts 1)) (drop (nat 1) ?ts))),
                    [] @ [score])"
    by (elim allE)
  then have g: "\<exists>score. gap_body 2 ?ts ?ut 1 (Counter_empty, Counter_empty, [])
      = Inr ([(''a'', 1)], [(''b'', 1)], [score])"
    unfolding c
    by (simp add: Counter_def counter_incr_def counter_get_def counter_add_def
        counter_keys_def Counter_empty_def)
  from s have "\<exists>scores. block_score 2 ?ts ?ut = Inr scores \<and> length scores = 2"
    by simp
  with k c g show ?thesis by (intro conjI)
qed

text \<open>
  Claim C1 says that the counts at gap \<open>i\<close> come from the gap's own windows only. The source
  creates \<open>before_count\<close> and \<open>after_count\<close> once, before the loop over the gaps, and never
  resets them, so the counts of all earlier gaps stay in them. On the groups
  \<open>[a], [b], [a]\<close> with \<open>k = 1\<close>: at gap 2 the before-window is the group \<open>[b]\<close> and the
  after-window the group \<open>[a]\<close>, but the source's \<open>before_count\<close> is \<open>{a: 1, b: 1}\<close> and its
  \<open>after_count\<close> is \<open>{b: 1, a: 1}\<close>, and the score is 1 where the windows give 0.
\<close>

theorem block_score_counts_accumulate:
  "gap_loop 1 [[''a''], [''b''], [''a'']] [''a'', ''b''] [1, 2] (Counter_empty, Counter_empty, [])
     = Inr ([(''a'', 1), (''b'', 1)], [(''b'', 1), (''a'', 1)], [0, 1]) \<and>
   spec_window [[''a''], [''b''], [''a'']] 1 2 = [(''b'', 1)] \<and>
   spec_window [[''a''], [''b''], [''a'']] 2 3 = [(''a'', 1)] \<and>
   block_score 1 [[''a''], [''b''], [''a'']] [''a'', ''b''] = Inr [0, 1]"
  by (simp add: eval_defs)

text \<open>
  Claim C6 says that every score is in \<open>[0, 1]\<close> and that the score of a gap whose windows
  share no vocabulary word is 0. The first half holds of the source (lemma
  \<open>block_score_range\<close> above); the second does not. On the groups
  \<open>[a], [a], [x], [x]\<close> with vocabulary \<open>{a}\<close> and \<open>k = 1\<close>, the windows of gap 3 are \<open>[x]\<close>
  and \<open>[x]\<close>: neither holds a vocabulary word. The source scores gap 2 and gap 3 with 1,
  from the counts left by the earlier gaps.
\<close>

theorem block_score_disjoint_windows_nonzero:
  "block_score 1 [[''a''], [''a''], [''x''], [''x'']] [''a''] = Inr [1, 1, 1] \<and>
   counter_get (spec_window [[''a''], [''a''], [''x''], [''x'']] 2 3) ''a'' = 0 \<and>
   counter_get (spec_window [[''a''], [''a''], [''x''], [''x'']] 3 4) ''a'' = 0"
  by (simp add: eval_defs)

text \<open>
  Claim C7 says that scoring the reversed sequence gives the reversed scores. On the
  groups \<open>[a], [b], [c]\<close> with \<open>k = 1\<close> the source returns \<open>[0, 1/2]\<close>, and on the reversed
  groups it returns \<open>[0, 1/2]\<close> again, not \<open>[1/2, 0]\<close>.
\<close>

theorem block_score_reverse_differs:
  "block_score 1 (rev [[''a''], [''b''], [''c'']]) [''a'', ''b'', ''c''] = Inr [0, 1 / 2] \<and>
   map_sum id rev (block_score 1 [[''a''], [''b''], [''c'']] [''a'', ''b'', ''c''])
     = Inr [1 / 2, 0]"
  by (simp add: eval_defs)

section \<open>The tokenizer\<close>

text \<open>
  Claim C2 is the scenario of the specification: the text
  \<^verbatim>\<open>"the cat sat on the mat\n\ndog ran fast dog ran"\<close>, \<open>w = 3\<close>, stop words \<open>{the, on}\<close>, the
  identity as lemmatizer, \<open>k = 1\<close>. The tokenizer returns the three groups, the vocabulary
  and \<open>paragraph_breaks = [6]\<close> of the claim. The block scorer returns two scores, but the
  second is \<open>1 / sqrt 12\<close>, not 0: at gap 2 the word \<open>mat\<close> is in \<open>before_count\<close> since gap 1
  put it into \<open>after_count\<close>, and the source keeps both counters from gap to gap.
\<close>

theorem scenario_scores:
  "tokenize_string [''the'', ''on''] id
     (''the cat sat on the mat'' @ [CHR 0x0A, CHR 0x0A] @ ''dog ran fast dog ran'') 3
     = Inr ([[''cat'', ''sat''], [''mat''], [''dog'', ''ran'', ''fast'']],
            [''cat'', ''sat'', ''mat'', ''dog'', ''ran'', ''fast''], [6]) \<and>
   block_score 1 [[''cat'', ''sat''], [''mat''], [''dog'', ''ran'', ''fast'']]
     [''cat'', ''sat'', ''mat'', ''dog'', ''ran'', ''fast''] = Inr [0, 1 / sqrt 12] \<and>
   1 / sqrt 12 \<noteq> 0"
proof (intro conjI)
  show "tokenize_string [''the'', ''on''] id
     (''the cat sat on the mat'' @ [CHR 0x0A, CHR 0x0A] @ ''dog ran fast dog ran'') 3
     = Inr ([[''cat'', ''sat''], [''mat''], [''dog'', ''ran'', ''fast'']],
            [''cat'', ''sat'', ''mat'', ''dog'', ''ran'', ''fast''], [6])"
    by code_simp
  show "block_score 1 [[''cat'', ''sat''], [''mat''], [''dog'', ''ran'', ''fast'']]
     [''cat'', ''sat'', ''mat'', ''dog'', ''ran'', ''fast''] = Inr [0, 1 / sqrt 12]"
    by (simp add: eval_defs)
  show "1 / sqrt 12 \<noteq> 0" by simp
qed

text \<open>
  Claim C3 says that the input is case-folded before the tokens are matched. The docstring
  of \<open>tokenize_string\<close> says so too (step 1: turn all text into lowercase), but the source
  never lowers the case: the pattern \<^verbatim>\<open>[a-z]+\<close> skips capital letters, and \<^verbatim>\<open>"The"\<close> yields the
  token \<open>he\<close>.
\<close>

theorem tokenize_string_no_case_folding:
  "raw_tokens ''The'' = [''he''] \<and> raw_tokens ''the'' = [''the''] \<and>
   tokenize_string [] id ''The'' 1 = Inr ([[''he'']], [''he''], []) \<and>
   tokenize_string [] id ''the'' 1 = Inr ([[''the'']], [''the''], [])"
  by code_simp

text \<open>
  Claim C4 says that a group is the multiset of its surviving tokens, each lemmatized once.
  The source collects a group in a \<open>Counter\<close> and then iterates over it, which yields every
  distinct word once, so the counts are lost; and it lemmatizes in the pass that removes
  the stop words (line 91) and again in the next pass (line 95). With a lemmatizer that
  drops the last letter, \<^verbatim>\<open>"dogs dogs cats"\<close> and \<open>w = 3\<close> give the group \<open>[do, ca]\<close>; with the
  identity, \<^verbatim>\<open>"dog dog cat"\<close> gives the group \<open>[dog, cat]\<close>, in which \<open>dog\<close> counts once.
\<close>

theorem tokenize_string_group_counts_lost:
  "tokenize_string [] butlast ''dogs dogs cats'' 3
     = Inr ([[''do'', ''ca'']], [''dogs'', ''cats''], []) \<and>
   tokenize_string [] id ''dog dog cat'' 3 = Inr ([[''dog'', ''cat'']], [''dog'', ''cat''], []) \<and>
   counter_get (Counter [''dog'', ''cat'']) ''dog'' = 1"
  by code_simp

text \<open>
  Claim C9 is about \<open>paragraph_breaks\<close>. Its length is as claimed: the number of paragraphs
  that are not empty, less one, and 0 when there is none. Its values are the running token
  counts after each paragraph but the last. They do not always increase strictly, and they
  are not always below the total token count: a paragraph that is not empty and holds no
  token (digits or punctuation only) repeats the count before it. On the four lines
  \<open>a\<close>, \<open>1\<close>, \<open>b\<close>, \<open>2\<close> the text has two tokens and \<open>paragraph_breaks = [1, 1, 2]\<close>.
\<close>

theorem paragraph_breaks_not_strict:
  "tokenize_string [] id (''a'' @ [CHR 0x0A] @ ''1'' @ [CHR 0x0A] @ ''b'' @ [CHR 0x0A] @ ''2'') 1
     = Inr ([[''a''], [''b'']], [''a'', ''b''], [1, 1, 2]) \<and>
   paragraphs_of (''a'' @ [CHR 0x0A] @ ''1'' @ [CHR 0x0A] @ ''b'' @ [CHR 0x0A] @ ''2'')
     = [''a'', ''1'', ''b'', ''2''] \<and>
   raw_tokens (''a'' @ [CHR 0x0A] @ ''1'' @ [CHR 0x0A] @ ''b'' @ [CHR 0x0A] @ ''2'')
     = [''a'', ''b'']"
  by code_simp

text \<open>
  Claim C9 as the source has it: for every text and every \<open>w \<noteq> 0\<close> the tokenizer returns,
  \<open>paragraph_breaks\<close> has length \<open>max(0, number of nonempty paragraphs - 1)\<close>, its values
  never decrease and none exceeds the total raw token count; when every nonempty
  paragraph holds at least one token, the values increase strictly and each is strictly
  below the total raw token count.
\<close>

theorem paragraph_breaks_properties:
  assumes "w \<noteq> 0"
  shows "\<exists>groups vocabulary paragraph_breaks.
     tokenize_string stop_words lemmatize input_string w
       = Inr (groups, vocabulary, paragraph_breaks) \<and>
     int (length paragraph_breaks) = max 0 (int (length (paragraphs_of input_string)) - 1) \<and>
     sorted paragraph_breaks \<and>
     (\<forall>b \<in> set paragraph_breaks. b \<le> int (length (raw_tokens input_string))) \<and>
     ((\<forall>p \<in> set (paragraphs_of input_string). findall p \<noteq> []) \<longrightarrow>
        sorted_wrt (<) paragraph_breaks \<and>
        (\<forall>b \<in> set paragraph_breaks. b < int (length (raw_tokens input_string))))"
proof -
  let ?ps = "paragraphs_of input_string"
  let ?all = "snd (snd (paragraph_loop ?ps ([], 0, [])))"
  let ?n = "int (length (raw_tokens input_string))"
  from group_loop_total [OF assms]
  obtain c i ts where g: "group_loop w (raw_tokens input_string) (Counter_empty, 0, []) = Inr (c, i, ts)"
    by blast
  have toks: "raw_tokens input_string = concat (map findall ?ps)"
    using paragraph_loop_tokens [of ?ps "[]" 0 "[]"] by (simp add: raw_tokens_def)
  have len: "length ?all = length ?ps"
    using paragraph_loop_breaks_length [of ?ps "[]" 0 "[]"] by simp
  have srt: "sorted ?all \<and> (\<forall>b \<in> set ?all. b \<le> ?n)"
    using paragraph_loop_breaks_sorted [of "[]" 0 ?ps "[]"] by (simp add: toks)
  have 1: "int (length (butlast ?all)) = max 0 (int (length ?ps) - 1)"
    using len by auto
  have 2: "sorted (butlast ?all)"
    using srt by (simp add: sorted_butlast)
  have 3: "\<forall>b \<in> set (butlast ?all). b \<le> ?n"
    using srt by (meson in_set_butlastD)
  have 4: "(\<forall>p \<in> set ?ps. findall p \<noteq> []) \<longrightarrow>
        sorted_wrt (<) (butlast ?all) \<and> (\<forall>b \<in> set (butlast ?all). b < ?n)"
  proof
    assume a: "\<forall>p \<in> set ?ps. findall p \<noteq> []"
    have s: "sorted_wrt (<) ?all \<and> (\<forall>b \<in> set (butlast ?all). ?ps \<noteq> [] \<longrightarrow> b < ?n)"
      using paragraph_loop_breaks_strict [of "[]" 0 ?ps "[]"] a by (simp add: toks)
    have "?ps \<noteq> []" if "b \<in> set (butlast ?all)" for b
      using that len by (cases "?ps") auto
    with s show "sorted_wrt (<) (butlast ?all) \<and> (\<forall>b \<in> set (butlast ?all). b < ?n)"
      by (auto simp: butlast_conv_take sorted_wrt_take)
  qed
  have "tokenize_string stop_words lemmatize input_string w =
     Inr (map (\<lambda>s. map lemmatize
                      [lemmatize word. word \<leftarrow> counter_keys s, word \<notin> set stop_words]) ts,
          [word. word \<leftarrow> py_set (raw_tokens input_string), word \<notin> set stop_words],
          butlast ?all)"
    by (simp add: tokenize_string_unfold g)
  with 1 2 3 4 show ?thesis by blast
qed

theorem paragraph_breaks_properties_witness:
  "(1::int) \<noteq> 0 \<and>
   list_all (\<lambda>p. findall p \<noteq> []) (paragraphs_of (''a b'' @ [CHR 0x0A] @ ''c'')) \<and>
   (\<exists>groups vocabulary paragraph_breaks.
      tokenize_string [] id (''a b'' @ [CHR 0x0A] @ ''c'') 1
        = Inr (groups, vocabulary, paragraph_breaks) \<and>
      int (length paragraph_breaks) = 1 \<and>
      sorted_wrt (<) paragraph_breaks \<and>
      list_all (\<lambda>b. b < 3) paragraph_breaks)"
proof -
  let ?s = "''a b'' @ [CHR 0x0A] @ ''c''"
  have ps: "paragraphs_of ?s = [''a b'', ''c'']" by code_simp
  have n: "raw_tokens ?s = [''a'', ''b'', ''c'']" by code_simp
  have la: "list_all (\<lambda>p. findall p \<noteq> []) (paragraphs_of ?s)" by code_simp
  then have h: "\<forall>p \<in> set (paragraphs_of ?s). findall p \<noteq> []"
    by (simp only: list_all_iff)
  have w: "(1::int) \<noteq> 0" by simp
  from paragraph_breaks_properties [OF w, of "[]" id ?s] h
  obtain groups vocabulary paragraph_breaks where
    "tokenize_string [] id ?s 1 = Inr (groups, vocabulary, paragraph_breaks)"
    "int (length paragraph_breaks) = max 0 (int (length (paragraphs_of ?s)) - 1)"
    "sorted_wrt (<) paragraph_breaks"
    "\<forall>b \<in> set paragraph_breaks. b < int (length (raw_tokens ?s))"
    by blast
  then have "tokenize_string [] id ?s 1 = Inr (groups, vocabulary, paragraph_breaks) \<and>
      int (length paragraph_breaks) = 1 \<and> sorted_wrt (<) paragraph_breaks \<and>
      list_all (\<lambda>b. b < 3) paragraph_breaks"
    unfolding ps n by (simp add: list_all_iff)
  then have "\<exists>groups vocabulary paragraph_breaks.
      tokenize_string [] id ?s 1 = Inr (groups, vocabulary, paragraph_breaks) \<and>
      int (length paragraph_breaks) = 1 \<and> sorted_wrt (<) paragraph_breaks \<and>
      list_all (\<lambda>b. b < 3) paragraph_breaks"
    by blast
  with la w show ?thesis by (intro conjI)
qed

text \<open>
  Claim C10. For every text and every \<open>w \<noteq> 0\<close> the tokenizer returns, and the vocabulary it
  returns holds exactly the distinct raw tokens of the text that are not stop words, each
  once. The vocabulary does not depend on the lemmatizer (any other lemmatizer gives the
  same vocabulary), whereas every word of every group is a raw token that is not a stop
  word, lemmatized (twice, by lines 91 and 95).
\<close>

theorem vocabulary_raw_non_stop_words:
  assumes "w \<noteq> 0"
  shows "\<exists>groups vocabulary paragraph_breaks.
     tokenize_string stop_words lemmatize input_string w
       = Inr (groups, vocabulary, paragraph_breaks) \<and>
     set vocabulary = set (raw_tokens input_string) - set stop_words \<and>
     distinct vocabulary \<and>
     (\<forall>lemmatize'. \<exists>groups'.
        tokenize_string stop_words lemmatize' input_string w
          = Inr (groups', vocabulary, paragraph_breaks)) \<and>
     (\<forall>grp \<in> set groups. \<forall>word \<in> set grp.
        \<exists>tok \<in> set (raw_tokens input_string) - set stop_words.
          word = lemmatize (lemmatize tok))"
proof -
  let ?toks = "raw_tokens input_string"
  let ?v = "filter (\<lambda>word. word \<notin> set stop_words) (py_set ?toks)"
  let ?b = "butlast (snd (snd (paragraph_loop (paragraphs_of input_string) ([], 0, []))))"
  let ?g = "\<lambda>lem ts. map (\<lambda>s. map (lem \<circ> lem)
                      (filter (\<lambda>word. word \<notin> set stop_words) (counter_keys s))) ts"
  from group_loop_total [OF assms]
  obtain c i ts where g: "group_loop w ?toks (Counter_empty, 0, []) = Inr (c, i, ts)"
    by blast
  have r: "tokenize_string stop_words lem input_string w = Inr (?g lem ts, ?v, ?b)" for lem
    by (simp add: tokenize_string_result g)
  have v: "set ?v = set ?toks - set stop_words"
    by (auto simp: set_py_set)
  have d: "distinct ?v"
    using distinct_py_set [of ?toks] by simp
  have k: "set (counter_keys s) \<subseteq> set ?toks" if "s \<in> set ts" for s
  proof -
    from group_loop_keys [OF g]
    have "(\<Union>s \<in> set ts. set (counter_keys s)) \<subseteq> set ?toks"
      by (simp add: counter_keys_empty)
    with that show ?thesis by blast
  qed
  have l: "\<exists>tok \<in> set ?toks - set stop_words. word = lemmatize (lemmatize tok)"
    if "grp \<in> set (?g lemmatize ts)" "word \<in> set grp" for grp word
  proof -
    from that(1) obtain s where s: "s \<in> set ts"
      and grp: "grp = map (lemmatize \<circ> lemmatize)
                  (filter (\<lambda>word. word \<notin> set stop_words) (counter_keys s))"
      by auto
    from that(2) grp obtain tok where "tok \<in> set (counter_keys s)" "tok \<notin> set stop_words"
      "word = lemmatize (lemmatize tok)"
      by auto
    with k [OF s] show ?thesis by blast
  qed
  have a: "\<forall>lemmatize'. \<exists>groups'.
        tokenize_string stop_words lemmatize' input_string w = Inr (groups', ?v, ?b)"
    by (intro allI exI) (rule r)
  have l': "\<forall>grp \<in> set (?g lemmatize ts). \<forall>word \<in> set grp.
        \<exists>tok \<in> set ?toks - set stop_words. word = lemmatize (lemmatize tok)"
    by (intro ballI) (rule l)
  show ?thesis
    apply (rule exI [of _ "?g lemmatize ts"])
    apply (rule exI [of _ ?v])
    apply (rule exI [of _ ?b])
    apply (intro conjI)
        apply (rule r)
       apply (rule v)
      apply (rule d)
     apply (rule a)
    apply (rule l')
    done
qed

theorem vocabulary_raw_non_stop_words_witness:
  "(1::int) \<noteq> 0 \<and>
   (\<exists>groups vocabulary paragraph_breaks.
      tokenize_string [''the''] butlast ''the cats'' 1
        = Inr (groups, vocabulary, paragraph_breaks) \<and>
      set vocabulary = {''cats''} \<and> distinct vocabulary)"
proof -
  have n: "set (raw_tokens ''the cats'') - set [''the''] = {''cats''}"
  proof -
    have "raw_tokens ''the cats'' = [''the'', ''cats'']" by code_simp
    then show ?thesis by simp
  qed
  have w: "(1::int) \<noteq> 0" by simp
  from vocabulary_raw_non_stop_words [OF w, of "[''the'']" butlast "''the cats''"]
  have "\<exists>groups vocabulary paragraph_breaks.
      tokenize_string [''the''] butlast ''the cats'' 1
        = Inr (groups, vocabulary, paragraph_breaks) \<and>
      set vocabulary = set (raw_tokens ''the cats'') - set [''the''] \<and> distinct vocabulary"
    by (elim exE conjE) (intro exI conjI; assumption)
  then show ?thesis
    unfolding n using w by (intro conjI)
qed

section \<open>Arguments that are not positive\<close>

text \<open>
  Claim C5 says that \<open>w \<le> 0\<close> and \<open>k \<le> 0\<close> fail with an \<open>InvalidArgument\<close> error. The source
  checks neither argument and has no such error. With \<open>w = -1\<close> the tokenizer returns
  groups of one token; with \<open>w = 0\<close> and a text without tokens it returns empty results; the
  block scorer with \<open>k = 0\<close> or \<open>k = -1\<close> returns a score of 0 for every gap.
\<close>

theorem nonpositive_arguments_accepted:
  "tokenize_string [] id ''a b'' (- 1) = Inr ([[''a''], [''b'']], [''a'', ''b''], []) \<and>
   tokenize_string [] id ''12'' 0 = Inr ([], [], []) \<and>
   block_score 0 [[''a''], [''a'']] [''a''] = Inr [0] \<and>
   block_score (- 1) [[''a''], [''a'']] [''a''] = Inr [0]"
proof (intro conjI)
  show "tokenize_string [] id ''a b'' (- 1) = Inr ([[''a''], [''b'']], [''a'', ''b''], [])"
    by code_simp
  show "tokenize_string [] id ''12'' 0 = Inr ([], [], [])"
    by code_simp
  show "block_score 0 [[''a''], [''a'']] [''a''] = Inr [0]"
    by (simp add: eval_defs)
  show "block_score (- 1) [[''a''], [''a'']] [''a''] = Inr [0]"
    by (simp add: eval_defs)
qed

text \<open>
  Claim C5 as the source has it. With \<open>w = 0\<close> the tokenizer raises \<open>ZeroDivisionError\<close>
  (from \<^verbatim>\<open>index % w\<close>) when the text has at least one raw token, and returns no groups and
  an empty vocabulary when it has none. With \<open>w < 0\<close> it returns, and returns what it
  returns for \<open>-w\<close>. The block scorer with \<open>k \<le> 0\<close> returns \<open>len(groups) - 1\<close> scores, all 0.
\<close>

theorem nonpositive_arguments:
  "(raw_tokens input_string \<noteq> [] \<longrightarrow>
      tokenize_string stop_words lemmatize input_string 0 = Inl ZeroDivisionError) \<and>
   (raw_tokens input_string = [] \<longrightarrow>
      (\<exists>paragraph_breaks.
         tokenize_string stop_words lemmatize input_string 0 = Inr ([], [], paragraph_breaks))) \<and>
   (w < 0 \<longrightarrow>
      (\<exists>result. tokenize_string stop_words lemmatize input_string w = Inr result \<and>
         tokenize_string stop_words lemmatize input_string (- w) = Inr result)) \<and>
   (k \<le> 0 \<longrightarrow>
      block_score k token_sequence unique_tokens
        = Inr (replicate (length token_sequence - 1) 0))"
proof (intro conjI impI)
  assume "raw_tokens input_string \<noteq> []"
  then show "tokenize_string stop_words lemmatize input_string 0 = Inl ZeroDivisionError"
    by (simp add: tokenize_string_result group_loop_zero)
next
  assume "raw_tokens input_string = []"
  then show "\<exists>paragraph_breaks.
      tokenize_string stop_words lemmatize input_string 0 = Inr ([], [], paragraph_breaks)"
    by (simp add: tokenize_string_result group_loop_zero py_set_def)
next
  assume "w < 0"
  then have "w \<noteq> 0" by simp
  from group_loop_total [OF this]
  obtain c i ts where
    "group_loop w (raw_tokens input_string) (Counter_empty, 0, []) = Inr (c, i, ts)"
    by blast
  then have "\<exists>result. tokenize_string stop_words lemmatize input_string w = Inr result"
    by (simp add: tokenize_string_result)
  then show "\<exists>result. tokenize_string stop_words lemmatize input_string w = Inr result \<and>
         tokenize_string stop_words lemmatize input_string (- w) = Inr result"
    by (simp add: tokenize_string_minus)
next
  assume "k \<le> 0"
  then show "block_score k token_sequence unique_tokens
        = Inr (replicate (length token_sequence - 1) 0)"
    by (simp add: block_score_def gap_loop_nonpositive)
qed

theorem nonpositive_arguments_witness:
  "raw_tokens ''a b'' \<noteq> [] \<and> raw_tokens ''12'' = [] \<and> (- 2 :: int) < 0 \<and> (0::int) \<le> 0 \<and>
   tokenize_string [] id ''a b'' 0 = Inl ZeroDivisionError \<and>
   (\<exists>paragraph_breaks. tokenize_string [] id ''12'' 0 = Inr ([], [], paragraph_breaks)) \<and>
   (\<exists>result. tokenize_string [] id ''a b c d'' (- 2) = Inr result \<and>
      tokenize_string [] id ''a b c d'' (- (- 2)) = Inr result) \<and>
   block_score 0 [[''a''], [''a'']] [''a''] = Inr (replicate (length [[''a''], [''a'']] - 1) 0)"
proof -
  have 1: "raw_tokens ''a b'' \<noteq> []" by code_simp
  have 2: "raw_tokens ''12'' = []" by code_simp
  have 3: "(- 2 :: int) < 0" by simp
  have 4: "(0::int) \<le> 0" by simp
  note a = nonpositive_arguments [of "''a b''" "[]" id w k ts ut, THEN conjunct1, rule_format, OF 1]
  note b = nonpositive_arguments [of "''12''" "[]" id w k ts ut, THEN conjunct2, THEN conjunct1, rule_format, OF 2]
  note c = nonpositive_arguments [of "''a b c d''" "[]" id "- 2" k ts ut, THEN conjunct2, THEN conjunct2, THEN conjunct1, rule_format, OF 3]
  note d = nonpositive_arguments [of s "[]" id w 0 "[[''a''], [''a'']]" "[''a'']", THEN conjunct2, THEN conjunct2, THEN conjunct2, rule_format, OF 4]
  from 1 2 3 4 a b c d show ?thesis by (intro conjI)
qed

end
